theory Spec2Isabelle
  imports Main "HOL-Library.Sublist"
begin

section \<open>The LRU cache with TTL of the weather proxy (src/server.js)\<close>

text \<open>
  The class \<^verbatim>\<open>LRUCache\<close> keeps a JavaScript \<^verbatim>\<open>Map\<close> from a key to an entry
  \<^verbatim>\<open>{value, expiry}\<close>. A \<^verbatim>\<open>Map\<close> iterates in insertion order, and the cache uses that
  order as its recency order: the first key is the least recently used one, the last key
  the most recently used one. The embedding keeps the order: a \<^verbatim>\<open>Map\<close> is an association
  list, oldest insertion first. Keys are strings (the handler passes the lower-cased
  city name). Numbers are integers: the capacity and the TTL are read with
  \<^verbatim>\<open>parseInt\<close>, and \<^verbatim>\<open>Date.now()\<close> is a number of milliseconds, which every operation
  that reads the clock takes as the argument \<open>now\<close>.
\<close>

subsection \<open>The operations of a JavaScript Map\<close>

type_synonym 'a jsmap = "(string \<times> 'a) list"

definition Map_size :: "'a jsmap \<Rightarrow> nat" where
  "Map_size m = length m"

definition Map_keys :: "'a jsmap \<Rightarrow> string list" where
  "Map_keys m = map fst m"

definition Map_has :: "'a jsmap \<Rightarrow> string \<Rightarrow> bool" where
  "Map_has m key = (key \<in> set (Map_keys m))"

text \<open>\<^verbatim>\<open>m.get(key)\<close>: the stored value, \<open>None\<close> for \<^verbatim>\<open>undefined\<close>.\<close>

definition Map_get :: "'a jsmap \<Rightarrow> string \<Rightarrow> 'a option" where
  "Map_get m key = map_of m key"

definition Map_delete :: "'a jsmap \<Rightarrow> string \<Rightarrow> 'a jsmap" where
  "Map_delete m key = filter (\<lambda>kv. fst kv \<noteq> key) m"

text \<open>
  \<^verbatim>\<open>m.set(key, v)\<close>: a key already in the map keeps its position and takes the new value,
  a new key goes to the end.
\<close>

fun Map_set :: "'a jsmap \<Rightarrow> string \<Rightarrow> 'a \<Rightarrow> 'a jsmap" where
  "Map_set [] key v = [(key, v)]"
| "Map_set (kv # m) key v = (if fst kv = key then (key, v) # m else kv # Map_set m key v)"

text \<open>\<^verbatim>\<open>m.keys().next().value\<close>: the first key, \<open>None\<close> (\<^verbatim>\<open>undefined\<close>) for an empty map.\<close>

definition Map_first_key :: "'a jsmap \<Rightarrow> string option" where
  "Map_first_key m = (case m of [] \<Rightarrow> None | kv # _ \<Rightarrow> Some (fst kv))"

text \<open>
  The test \<^verbatim>\<open>if (firstKey)\<close> is a truthiness test: \<^verbatim>\<open>undefined\<close> is falsy, and so is
  the empty string.
\<close>

definition truthy :: "string \<Rightarrow> bool" where
  "truthy s = (s \<noteq> [])"

subsection \<open>The cache\<close>

record 'v entry =
  value' :: 'v
  expiry :: int

record 'v LRUCache =
  maxEntries :: int
  ttlMillis :: int
  map' :: "'v entry jsmap"

text \<open>
  \<^verbatim>\<open>constructor(maxEntries = 200, ttlSeconds = 600)\<close>: an argument that is left out
  (\<open>None\<close>) takes its default. The body is three assignments.
\<close>

definition constructor :: "int option \<Rightarrow> int option \<Rightarrow> 'v LRUCache" where
  "constructor maxEntries_arg ttlSeconds_arg =
     (let maxEntries = (case maxEntries_arg of None \<Rightarrow> 200 | Some n \<Rightarrow> n);
          ttlSeconds = (case ttlSeconds_arg of None \<Rightarrow> 600 | Some s \<Rightarrow> s)
      in \<lparr>maxEntries = maxEntries, ttlMillis = ttlSeconds * 1000, map' = []\<rparr>)"

text \<open>
  The outcome of \<^verbatim>\<open>new LRUCache(maxEntries, ttlSeconds)\<close>. \<open>ConfigurationError\<close> is the
  error the specification names; the constructor has no \<^verbatim>\<open>throw\<close>, so every call
  returns the object.
\<close>

datatype error = ConfigurationError

definition new_LRUCache :: "int option \<Rightarrow> int option \<Rightarrow> error + 'v LRUCache" where
  "new_LRUCache maxEntries_arg ttlSeconds_arg = Inr (constructor maxEntries_arg ttlSeconds_arg)"

definition isExpired :: "int \<Rightarrow> 'v entry \<Rightarrow> bool" where
  "isExpired now e = (now > expiry e)"

text \<open>
  \<^verbatim>\<open>get(key)\<close> returns \<^verbatim>\<open>null\<close> (\<open>None\<close>) or the stored value, and the cache after the
  call.
\<close>

definition LRUCache_get :: "string \<Rightarrow> int \<Rightarrow> 'v LRUCache \<Rightarrow> 'v option \<times> 'v LRUCache" where
  "LRUCache_get key now c =
     (case Map_get (map' c) key of
        None \<Rightarrow> (None, c)
      | Some e \<Rightarrow>
          if isExpired now e then (None, c\<lparr>map' := Map_delete (map' c) key\<rparr>)
          else (Some (value' e), c\<lparr>map' := Map_set (Map_delete (map' c) key) key e\<rparr>))"

definition LRUCache_set :: "string \<Rightarrow> 'v \<Rightarrow> int \<Rightarrow> 'v LRUCache \<Rightarrow> 'v LRUCache" where
  "LRUCache_set key v now c =
     (let m1 = (if int (Map_size (map' c)) \<ge> maxEntries c
                then (case Map_first_key (map' c) of
                        None \<Rightarrow> map' c
                      | Some firstKey \<Rightarrow>
                          if truthy firstKey then Map_delete (map' c) firstKey else map' c)
                else map' c);
          e = \<lparr>value' = v, expiry = now + ttlMillis c\<rparr>;
          m2 = (if Map_has m1 key then Map_delete m1 key else m1)
      in c\<lparr>map' := Map_set m2 key e\<rparr>)"

record stats =
  entries :: nat
  stats_maxEntries :: int
  stats_ttlMillis :: int

definition LRUCache_stats :: "'v LRUCache \<Rightarrow> stats \<times> 'v LRUCache" where
  "LRUCache_stats c =
     (\<lparr>entries = Map_size (map' c), stats_maxEntries = maxEntries c,
       stats_ttlMillis = ttlMillis c\<rparr>, c)"

subsection \<open>Sequences of calls\<close>

text \<open>
  A client calls the three methods one after the other, each at its own clock value.
\<close>

datatype 'v call = Get string | Set string 'v | Stats

datatype 'v response = Value "'v option" | Done | Snapshot stats

fun exec :: "'v call \<Rightarrow> int \<Rightarrow> 'v LRUCache \<Rightarrow> 'v response \<times> 'v LRUCache" where
  "exec (Get key) now c = (let (r, c') = LRUCache_get key now c in (Value r, c'))"
| "exec (Set key v) now c = (Done, LRUCache_set key v now c)"
| "exec Stats now c = (let (s, c') = LRUCache_stats c in (Snapshot s, c'))"

fun run :: "('v call \<times> int) list \<Rightarrow> 'v LRUCache \<Rightarrow> 'v response list \<times> 'v LRUCache" where
  "run [] c = ([], c)"
| "run ((call, now) # calls) c =
     (let (r, c') = exec call now c; (rs, c'') = run calls c' in (r # rs, c''))"

subsection \<open>Notions the properties are stated with\<close>

text \<open>
  The map that the first statement of \<^verbatim>\<open>set\<close> (the eviction step) leaves, before the
  entry is written.
\<close>

definition evict :: "'v LRUCache \<Rightarrow> 'v entry jsmap" where
  "evict c =
     (if int (Map_size (map' c)) \<ge> maxEntries c
      then (case Map_first_key (map' c) of
              None \<Rightarrow> map' c
            | Some firstKey \<Rightarrow>
                if truthy firstKey then Map_delete (map' c) firstKey else map' c)
      else map' c)"

text \<open>The number of stored entries that are not expired at \<open>now\<close>.\<close>

definition live_count :: "int \<Rightarrow> 'v LRUCache \<Rightarrow> nat" where
  "live_count now c = length (filter (\<lambda>kv. \<not> isExpired now (snd kv)) (map' c))"

text \<open>The keys stored before \<^verbatim>\<open>set(key, v)\<close> that are no longer stored after it.\<close>

definition evicted_keys :: "string \<Rightarrow> 'v \<Rightarrow> int \<Rightarrow> 'v LRUCache \<Rightarrow> string list" where
  "evicted_keys key v now c =
     filter (\<lambda>k. \<not> Map_has (map' (LRUCache_set key v now c)) k) (Map_keys (map' c))"

text \<open>Whether a call is a \<^verbatim>\<open>set\<close> of the key \<open>k\<close>.\<close>

fun sets_key :: "string \<Rightarrow> 'v call \<Rightarrow> bool" where
  "sets_key k (Set k' v) = (k' = k)"
| "sets_key k (Get k') = False"
| "sets_key k Stats = False"

text \<open>The last \<open>n\<close> elements of a list (all of them when it is shorter).\<close>

definition last_n :: "nat \<Rightarrow> 'a list \<Rightarrow> 'a list" where
  "last_n n xs = drop (length xs - n) xs"

text \<open>A \<^verbatim>\<open>set(k, v)\<close> call at the time \<open>t\<close>, from the triple \<open>(k, v, t)\<close>.\<close>

fun set_call :: "string \<times> 'v \<times> int \<Rightarrow> 'v call \<times> int" where
  "set_call (k, v, t) = (Set k v, t)"

text \<open>
  A cache of capacity 2 with a TTL of one second, after \<^verbatim>\<open>set('a', 1)\<close> at time 0 and
  \<^verbatim>\<open>set('b', 2)\<close> at time 5000: it is full, and from time 1001 on the entry of
  \<^verbatim>\<open>'a'\<close> is expired.
\<close>

definition cache_ab :: "int LRUCache" where
  "cache_ab = LRUCache_set ''b'' 2 5000 (LRUCache_set ''a'' 1 0 (constructor (Some 2) (Some 1)))"

section \<open>Facts about the Map operations and the cache\<close>

lemmas eval_defs =
  LRUCache_get_def LRUCache_set_def LRUCache_stats_def constructor_def new_LRUCache_def
  Let_def Map_size_def Map_first_key_def truthy_def Map_delete_def Map_has_def Map_keys_def
  Map_get_def isExpired_def

lemma Map_keys_delete: "Map_keys (Map_delete m k) = filter (\<lambda>x. x \<noteq> k) (Map_keys m)"
  by (induction m) (simp_all add: Map_keys_def Map_delete_def)

lemma Map_keys_append: "Map_keys (m @ [(k, v)]) = Map_keys m @ [k]"
  by (simp add: Map_keys_def)

lemma Map_has_delete: "Map_has (Map_delete m k) k' = (Map_has m k' \<and> k' \<noteq> k)"
  by (auto simp: Map_has_def Map_keys_delete)

lemma Map_delete_absent: "\<not> Map_has m k \<Longrightarrow> Map_delete m k = m"
  by (induction m) (auto simp: Map_has_def Map_keys_def Map_delete_def)

lemma length_Map_delete_le: "length (Map_delete m k) \<le> length m"
  by (simp add: Map_delete_def)

lemma length_Map_delete_less: "Map_has m k \<Longrightarrow> length (Map_delete m k) < length m"
proof -
  assume "Map_has m k"
  then obtain kv where "kv \<in> set m" "fst kv = k"
    by (auto simp: Map_has_def Map_keys_def)
  then show ?thesis
    using length_filter_less [of kv m "\<lambda>kv. fst kv \<noteq> k"] by (simp add: Map_delete_def)
qed

lemma Map_set_absent: "\<not> Map_has m k \<Longrightarrow> Map_set m k v = m @ [(k, v)]"
  by (induction m) (auto simp: Map_has_def Map_keys_def)

lemma Map_set_delete: "Map_set (Map_delete m k) k v = Map_delete m k @ [(k, v)]"
  by (rule Map_set_absent) (simp add: Map_has_delete)

lemma Map_get_None: "(Map_get m k = None) = (\<not> Map_has m k)"
  by (simp add: Map_get_def Map_has_def Map_keys_def map_of_eq_None_iff)


lemma first_key_in_keys: "Map_first_key m = Some k \<Longrightarrow> Map_has m k"
  by (cases m) (simp_all add: Map_first_key_def Map_has_def Map_keys_def)

text \<open>
  \<^verbatim>\<open>set\<close> writes the entry at the end of what the eviction step left, and a hit of
  \<^verbatim>\<open>get\<close> moves the entry to the end.
\<close>

lemma LRUCache_set_eq:
  "LRUCache_set key v now c =
     c\<lparr>map' := Map_delete (evict c) key @ [(key, \<lparr>value' = v, expiry = now + ttlMillis c\<rparr>)]\<rparr>"
  by (simp add: LRUCache_set_def evict_def Let_def Map_set_delete Map_set_absent
      Map_delete_absent)

lemma LRUCache_get_eq:
  "LRUCache_get key now c =
     (case Map_get (map' c) key of
        None \<Rightarrow> (None, c)
      | Some e \<Rightarrow>
          if isExpired now e then (None, c\<lparr>map' := Map_delete (map' c) key\<rparr>)
          else (Some (value' e), c\<lparr>map' := Map_delete (map' c) key @ [(key, e)]\<rparr>))"
  by (simp add: LRUCache_get_def Map_set_delete split: option.splits)

lemma get_absent: "\<not> Map_has (map' c) k \<Longrightarrow> LRUCache_get k now c = (None, c)"
proof -
  assume "\<not> Map_has (map' c) k"
  then have "Map_get (map' c) k = None" by (simp add: Map_get_None)
  then show ?thesis by (simp add: LRUCache_get_def)
qed

lemma keys_get:
  "Map_keys (map' (snd (LRUCache_get k now c))) =
     (if fst (LRUCache_get k now c) = None then filter (\<lambda>x. x \<noteq> k) (Map_keys (map' c))
      else filter (\<lambda>x. x \<noteq> k) (Map_keys (map' c)) @ [k])"
proof (cases "Map_get (map' c) k")
  case None
  then have "\<not> Map_has (map' c) k" by (simp add: Map_get_None)
  then have "filter (\<lambda>x. x \<noteq> k) (Map_keys (map' c)) = Map_keys (map' c)"
    by (auto simp: Map_has_def filter_id_conv)
  with None show ?thesis by (simp add: LRUCache_get_eq)
next
  case (Some e)
  then show ?thesis by (simp add: LRUCache_get_eq Map_keys_delete Map_keys_append)
qed

lemma keys_set:
  "Map_keys (map' (LRUCache_set k v now c)) = filter (\<lambda>x. x \<noteq> k) (Map_keys (evict c)) @ [k]"
  by (simp add: LRUCache_set_eq Map_keys_delete Map_keys_append)

lemma subseq_evict: "subseq (Map_keys (evict c)) (Map_keys (map' c))"
  by (simp add: evict_def Map_keys_delete split: option.splits)

lemma has_evict: "Map_has (evict c) k \<Longrightarrow> Map_has (map' c) k"
  by (auto simp: evict_def Map_has_delete split: option.splits if_splits)

lemma evict_below_capacity:
  "\<not> maxEntries c \<le> int (Map_size (map' c)) \<Longrightarrow> evict c = map' c"
  by (simp add: evict_def)

lemma evict_at_capacity:
  assumes full: "maxEntries c \<le> int (Map_size (map' c))" and pos: "0 < maxEntries c"
    and dist: "distinct (Map_keys (map' c))"
    and nonempty: "Map_first_key (map' c) \<noteq> Some []"
  shows "map' c \<noteq> [] \<and> evict c = tl (map' c)"
proof -
  from full pos obtain kv m where c: "map' c = kv # m"
    by (cases "map' c") (auto simp: Map_size_def)
  from nonempty c have ne: "fst kv \<noteq> []" by (simp add: Map_first_key_def)
  from dist c have "fst kv \<notin> fst ` set m" by (auto simp: Map_keys_def)
  then have "\<forall>x\<in>set m. fst x \<noteq> fst kv" by (metis image_eqI)
  then have "Map_delete (map' c) (fst kv) = m" by (simp add: c Map_delete_def filter_id_conv)
  then show ?thesis
    using full ne by (simp add: evict_def c Map_first_key_def truthy_def)
qed

lemma cache_ab_eq:
  "cache_ab = \<lparr>maxEntries = 2, ttlMillis = 1000,
     map' = [(''a'', \<lparr>value' = 1, expiry = 1000\<rparr>), (''b'', \<lparr>value' = 2, expiry = 6000\<rparr>)]\<rparr>"
  by (simp add: cache_ab_def eval_defs)

subsection \<open>Sequences of calls\<close>

lemma snd_run_Cons:
  "snd (run ((call, now) # calls) c) = snd (run calls (snd (exec call now c)))"
  by (simp add: split_beta)

lemma run_append:
  "run (xs @ ys) c = (let (rs, c') = run xs c; (rs', c'') = run ys c' in (rs @ rs', c''))"
  by (induction xs arbitrary: c) (auto split: prod.splits)

lemma run_Stats:
  "run (map (\<lambda>t. (Stats, t)) ts) c =
     (replicate (length ts) (Snapshot (fst (LRUCache_stats c))), c)"
  by (induction ts) (simp_all add: LRUCache_stats_def)

lemma exec_config:
  "maxEntries (snd (exec call now c)) = maxEntries c \<and>
   ttlMillis (snd (exec call now c)) = ttlMillis c"
  by (cases call)
    (simp_all add: LRUCache_get_eq LRUCache_set_eq LRUCache_stats_def split: option.splits)

lemma run_config:
  "maxEntries (snd (run calls c)) = maxEntries c \<and> ttlMillis (snd (run calls c)) = ttlMillis c"
proof (induction calls arbitrary: c)
  case Nil
  show ?case by simp
next
  case (Cons x calls)
  obtain call now where x: "x = (call, now)" by (cases x)
  show ?case using Cons [of "snd (exec call now c)"] exec_config [of call now c]
    by (simp add: x snd_run_Cons del: run.simps)
qed

text \<open>A key that is stored after a call other than its own \<^verbatim>\<open>set\<close> was stored before.\<close>

lemma has_after_get:
  "Map_has (map' (snd (LRUCache_get k' now c))) k \<Longrightarrow> Map_has (map' c) k"
proof (cases "Map_get (map' c) k'")
  case None
  assume "Map_has (map' (snd (LRUCache_get k' now c))) k"
  with None show ?thesis by (simp add: LRUCache_get_def)
next
  case (Some e)
  then have "Map_has (map' c) k'" using Map_get_None [of "map' c" k'] by simp
  moreover assume "Map_has (map' (snd (LRUCache_get k' now c))) k"
  ultimately show ?thesis
    using Some
    by (auto simp: LRUCache_get_eq Map_has_def Map_keys_delete Map_keys_append split: if_splits)
qed

lemma has_after_set:
  "Map_has (map' (LRUCache_set k' v now c)) k \<Longrightarrow> k \<noteq> k' \<Longrightarrow> Map_has (map' c) k"
  using has_evict [of c k] unfolding Map_has_def keys_set by (auto simp: Map_has_def)

lemma has_after_exec:
  "Map_has (map' (snd (exec call now c))) k \<Longrightarrow> \<not> sets_key k call \<Longrightarrow> Map_has (map' c) k"
proof (cases call)
  case (Get k')
  assume "Map_has (map' (snd (exec call now c))) k"
  then show ?thesis using has_after_get [of k' now c k] by (simp add: Get split_beta)
next
  case (Set k' v)
  assume "Map_has (map' (snd (exec call now c))) k" "\<not> sets_key k call"
  then show ?thesis using has_after_set [of k' v now c k] by (auto simp add: Set)
next
  case Stats
  assume "Map_has (map' (snd (exec call now c))) k"
  then show ?thesis by (simp add: Stats LRUCache_stats_def)
qed

lemma has_after_run:
  "Map_has (map' (snd (run calls c))) k \<Longrightarrow> \<forall>x\<in>set calls. \<not> sets_key k (fst x) \<Longrightarrow>
   Map_has (map' c) k"
proof (induction calls arbitrary: c)
  case Nil
  then show ?case by simp
next
  case (Cons x calls)
  obtain call now where x: "x = (call, now)" by (cases x)
  from Cons.prems have "Map_has (map' (snd (run calls (snd (exec call now c))))) k"
    by (simp add: x snd_run_Cons del: run.simps)
  with Cons.IH Cons.prems(2) have "Map_has (map' (snd (exec call now c))) k" by simp
  with Cons.prems(2) show ?case using has_after_exec [of call now c k] by (simp add: x)
qed








section \<open>The capacity bound\<close>

text \<open>
  With a positive capacity, and as long as the empty string is never a key, no call
  takes the number of stored entries above the capacity.
\<close>

lemma length_evict:
  assumes "0 < maxEntries c" "int (Map_size (map' c)) \<le> maxEntries c"
    and "Map_first_key (map' c) \<noteq> Some []"
  shows "int (length (evict c)) < maxEntries c"
proof (cases "maxEntries c \<le> int (Map_size (map' c))")
  case False
  then show ?thesis by (simp add: evict_def Map_size_def)
next
  case True
  with assms(1) obtain kv m where c: "map' c = kv # m"
    by (cases "map' c") (auto simp: Map_size_def)
  from assms(3) c have ne: "fst kv \<noteq> []" by (simp add: Map_first_key_def)
  have "Map_has (map' c) (fst kv)" by (simp add: c Map_has_def Map_keys_def)
  then have "length (Map_delete (map' c) (fst kv)) < length (map' c)"
    by (rule length_Map_delete_less)
  moreover have "evict c = Map_delete (map' c) (fst kv)"
    using True ne by (simp add: evict_def c Map_first_key_def truthy_def)
  ultimately show ?thesis using assms(2) by (simp add: Map_size_def)
qed

lemma set_capacity_bound:
  assumes "0 < maxEntries c" "int (Map_size (map' c)) \<le> maxEntries c"
    and "Map_first_key (map' c) \<noteq> Some []"
  shows "int (Map_size (map' (LRUCache_set key v now c))) \<le> maxEntries c"
proof -
  have "length (Map_delete (evict c) key) \<le> length (evict c)" by (rule length_Map_delete_le)
  with length_evict [OF assms] show ?thesis
    by (simp add: LRUCache_set_eq Map_size_def)
qed

lemma get_size_le: "Map_size (map' (snd (LRUCache_get k now c))) \<le> Map_size (map' c)"
proof (cases "Map_get (map' c) k")
  case None
  then show ?thesis by (simp add: LRUCache_get_def)
next
  case (Some e)
  then have "Map_has (map' c) k" using Map_get_None [of "map' c" k] by simp
  then have "length (Map_delete (map' c) k) < length (map' c)" by (rule length_Map_delete_less)
  with Some show ?thesis by (simp add: LRUCache_get_eq Map_size_def)
qed

lemma exec_capacity_bound:
  assumes "0 < maxEntries c" "int (Map_size (map' c)) \<le> maxEntries c"
    and "\<not> Map_has (map' c) []" "\<not> sets_key [] call"
  shows "int (Map_size (map' (snd (exec call now c)))) \<le> maxEntries c"
proof (cases call)
  case (Get k)
  show ?thesis using get_size_le [of k now c] assms(2) by (simp add: Get split_beta)
next
  case (Set k v)
  from assms(3) have "Map_first_key (map' c) \<noteq> Some []" using first_key_in_keys by blast
  with assms(1,2) show ?thesis by (simp add: Set set_capacity_bound)
next
  case Stats
  with assms(2) show ?thesis by (simp add: LRUCache_stats_def)
qed

lemma run_capacity_bound:
  assumes "0 < maxEntries c" "int (Map_size (map' c)) \<le> maxEntries c"
    and "\<not> Map_has (map' c) []" "\<forall>x\<in>set calls. \<not> sets_key [] (fst x)"
  shows "int (Map_size (map' (snd (run calls c)))) \<le> maxEntries c"
  using assms
proof (induction calls arbitrary: c)
  case Nil
  then show ?case by simp
next
  case (Cons x calls)
  obtain call now where x: "x = (call, now)" by (cases x)
  let ?c = "snd (exec call now c)"
  from Cons.prems(4) have ns: "\<not> sets_key [] call"
    and rest: "\<forall>x\<in>set calls. \<not> sets_key [] (fst x)"
    by (simp_all add: x)
  have cfg: "maxEntries ?c = maxEntries c" using exec_config [of call now c] by simp
  have size: "int (Map_size (map' ?c)) \<le> maxEntries ?c"
    using exec_capacity_bound [OF Cons.prems(1,2,3) ns] cfg by simp
  have ne: "\<not> Map_has (map' ?c) []"
    using has_after_exec [of call now c "[]"] ns Cons.prems(3) by blast
  have "int (Map_size (map' (snd (run calls ?c)))) \<le> maxEntries ?c"
    using Cons.IH [OF _ size ne rest] Cons.prems(1) cfg by simp
  then show ?case by (simp add: x snd_run_Cons cfg del: run.simps)
qed

text \<open>
  Below the capacity, \<^verbatim>\<open>set\<close> on a stored key keeps every stored key.
\<close>

lemma set_existing_key_below_capacity:
  assumes "int (Map_size (map' c)) < maxEntries c" "Map_has (map' c) key"
  shows "set (Map_keys (map' (LRUCache_set key v now c))) = set (Map_keys (map' c))"
proof -
  from assms(1) have "evict c = map' c" by (simp add: evict_def)
  then have "Map_keys (map' (LRUCache_set key v now c)) =
      filter (\<lambda>x. x \<noteq> key) (Map_keys (map' c)) @ [key]"
    by (simp add: keys_set)
  then show ?thesis using assms(2) by (auto simp: Map_has_def)
qed

text \<open>
  \<^verbatim>\<open>set\<close> calls with keys that are new, pairwise distinct and not empty leave the last
  \<open>maxEntries\<close> keys of the recency order.
\<close>

lemma last_n_append: "last_n n (last_n n xs @ ys) = last_n n (xs @ ys)"
  by (cases "length xs \<le> n") (auto simp: last_n_def add.commute)

lemma set_new_key_keys:
  assumes pos: "0 < maxEntries c" and bound: "int (Map_size (map' c)) \<le> maxEntries c"
    and dist: "distinct (Map_keys (map' c))" and ne: "\<not> Map_has (map' c) []"
    and new: "\<not> Map_has (map' c) k"
  shows "Map_keys (map' (LRUCache_set k v now c)) =
           last_n (nat (maxEntries c)) (Map_keys (map' c) @ [k])"
proof (cases "maxEntries c \<le> int (Map_size (map' c))")
  case False
  then have "evict c = map' c" by (rule evict_below_capacity)
  moreover have "filter (\<lambda>x. x \<noteq> k) (Map_keys (map' c)) = Map_keys (map' c)"
    using new by (auto simp: Map_has_def filter_id_conv)
  ultimately have "Map_keys (map' (LRUCache_set k v now c)) = Map_keys (map' c) @ [k]"
    by (simp add: keys_set)
  moreover have "length (Map_keys (map' c)) < nat (maxEntries c)"
    using False by (simp add: Map_size_def Map_keys_def)
  ultimately show ?thesis by (simp add: last_n_def)
next
  case True
  have fk: "Map_first_key (map' c) \<noteq> Some []" using ne first_key_in_keys by blast
  from evict_at_capacity [OF True pos dist fk]
  have c: "map' c \<noteq> []" and ev: "evict c = tl (map' c)" by simp_all
  have tl: "Map_keys (tl (map' c)) = tl (Map_keys (map' c))"
    by (simp add: Map_keys_def map_tl)
  have "filter (\<lambda>x. x \<noteq> k) (tl (Map_keys (map' c))) = tl (Map_keys (map' c))"
    using new c by (cases "map' c") (auto simp: Map_has_def Map_keys_def filter_id_conv)
  then have "Map_keys (map' (LRUCache_set k v now c)) = tl (Map_keys (map' c)) @ [k]"
    by (simp add: keys_set ev tl)
  moreover have "length (Map_keys (map' c)) = nat (maxEntries c)"
    using True bound by (simp add: Map_size_def Map_keys_def)
  moreover have "Map_keys (map' c) \<noteq> []" using c by (simp add: Map_keys_def)
  ultimately show ?thesis using pos by (simp add: last_n_def drop_Suc)
qed

lemma distinct_last_n_append: "distinct (xs @ ys) \<Longrightarrow> distinct (last_n n xs @ ys)"
  by (auto simp: last_n_def dest: in_set_dropD)

lemma sets_of_new_keys:
  assumes "0 < maxEntries c" "int (Map_size (map' c)) \<le> maxEntries c"
    and "distinct (Map_keys (map' c) @ map fst kvs)"
    and "[] \<notin> set (Map_keys (map' c) @ map fst kvs)"
  shows "Map_keys (map' (snd (run (map set_call kvs) c))) =
           last_n (nat (maxEntries c)) (Map_keys (map' c) @ map fst kvs)"
  using assms
proof (induction kvs arbitrary: c)
  case Nil
  then show ?case by (simp add: last_n_def Map_size_def Map_keys_def)
next
  case (Cons x kvs)
  obtain k v t where x: "x = (k, v, t)" by (cases x)
  let ?c = "LRUCache_set k v t c"
  let ?n = "nat (maxEntries c)"
  from Cons.prems(3) have dist: "distinct (Map_keys (map' c))" by simp
  from Cons.prems(4) have ne: "\<not> Map_has (map' c) []" by (simp add: Map_has_def)
  from Cons.prems(3) have new: "\<not> Map_has (map' c) k" by (simp add: x Map_has_def)
  have keys: "Map_keys (map' ?c) = last_n ?n (Map_keys (map' c) @ [k])"
    by (rule set_new_key_keys [OF Cons.prems(1,2) dist ne new])
  have cfg: "maxEntries ?c = maxEntries c" by (simp add: LRUCache_set_eq)
  have fk: "Map_first_key (map' c) \<noteq> Some []" using ne first_key_in_keys by blast
  have size: "int (Map_size (map' ?c)) \<le> maxEntries ?c"
    using set_capacity_bound [OF Cons.prems(1,2) fk] cfg by simp
  have d: "distinct (Map_keys (map' ?c) @ map fst kvs)"
    unfolding keys using Cons.prems(3) distinct_last_n_append [of "Map_keys (map' c) @ [k]" "map fst kvs" ?n]
    by (simp add: x)
  have e: "[] \<notin> set (Map_keys (map' ?c) @ map fst kvs)"
    unfolding keys using Cons.prems(4) by (auto simp: x last_n_def dest: in_set_dropD)
  have "Map_keys (map' (snd (run (map set_call kvs) ?c))) =
      last_n (nat (maxEntries ?c)) (Map_keys (map' ?c) @ map fst kvs)"
    using Cons.IH [OF _ size d e] Cons.prems(1) cfg by simp
  also have "\<dots> = last_n ?n (Map_keys (map' c) @ map fst (x # kvs))"
    by (simp add: cfg keys last_n_append x)
  finally show ?case by (simp add: x snd_run_Cons del: run.simps)
qed

section \<open>The claims\<close>

subsection \<open>C1: set on a stored key\<close>

text \<open>
  C1 says that \<^verbatim>\<open>set(k, v)\<close> on a key that is already stored never evicts another key,
  also when the cache is full. The eviction step of \<^verbatim>\<open>set\<close> runs before the test
  \<^verbatim>\<open>this.map.has(key)\<close> and looks at the size only. With capacity 2, after
  \<^verbatim>\<open>set('a', 1); set('b', 2)\<close> the keys are \<^verbatim>\<open>a, b\<close>; a further \<^verbatim>\<open>set('b', 3)\<close> deletes
  the first key \<^verbatim>\<open>a\<close>, and \<^verbatim>\<open>b\<close> alone is left.
\<close>

theorem set_existing_key_at_capacity_evicts_lru:
  "Map_keys (map' (LRUCache_set ''b'' (2::int) 10
       (LRUCache_set ''a'' 1 0 (constructor (Some 2) (Some 600))))) = [''a'', ''b'']
   \<and> Map_keys (map' (LRUCache_set ''b'' 3 20 (LRUCache_set ''b'' (2::int) 10
       (LRUCache_set ''a'' 1 0 (constructor (Some 2) (Some 600)))))) = [''b'']"
  by (simp add: eval_defs)

subsection \<open>C2: when set evicts\<close>

text \<open>
  C2 as stated: \<^verbatim>\<open>set(key, value)\<close> evicts if and only if the number of live (unexpired)
  keys equals the capacity and the key is not stored. It fails on \<open>cache_ab\<close> at time
  5500: one entry of two is live, the capacity is 2, the key \<^verbatim>\<open>'c'\<close> is new, and
  \<^verbatim>\<open>set('c', 3)\<close> evicts \<^verbatim>\<open>'a'\<close>, because the test reads \<^verbatim>\<open>this.map.size\<close>.
\<close>

theorem set_evicts_on_live_count_counterexample:
  "\<not> (evicted_keys ''c'' 3 5500 cache_ab \<noteq> [] \<longleftrightarrow>
       (int (live_count 5500 cache_ab) = maxEntries cache_ab
        \<and> \<not> Map_has (map' cache_ab) ''c''))"
  by (simp add: cache_ab_eq evicted_keys_def live_count_def eval_defs)

text \<open>
  C2 as amended: for a cache of positive capacity whose keys are distinct and whose
  first key is not the empty string, and a key that is not stored, \<^verbatim>\<open>set(key, value)\<close>
  evicts if and only if the number of stored entries, expired or not, has reached the
  capacity. It then removes exactly one entry, the first key of the recency order,
  whatever its expiry, and appends the new entry; otherwise it only appends the new
  entry.
\<close>

theorem set_evicts_iff_stored_count_reached:
  assumes absent: "\<not> Map_has (map' c) key"
    and dist: "distinct (Map_keys (map' c))"
    and nonempty: "Map_first_key (map' c) \<noteq> Some []"
    and pos: "0 < maxEntries c"
  shows "(evicted_keys key v now c \<noteq> [] \<longleftrightarrow> maxEntries c \<le> int (Map_size (map' c)))
       \<and> (maxEntries c \<le> int (Map_size (map' c)) \<longrightarrow>
            (\<exists>lru. Map_first_key (map' c) = Some lru \<and> evicted_keys key v now c = [lru]
               \<and> map' (LRUCache_set key v now c) =
                   tl (map' c) @ [(key, \<lparr>value' = v, expiry = now + ttlMillis c\<rparr>)]))
       \<and> (\<not> maxEntries c \<le> int (Map_size (map' c)) \<longrightarrow>
            map' (LRUCache_set key v now c) =
              map' c @ [(key, \<lparr>value' = v, expiry = now + ttlMillis c\<rparr>)])"
proof (cases "maxEntries c \<le> int (Map_size (map' c))")
  case False
  then have ev: "evict c = map' c" by (simp add: evict_def)
  have m: "map' (LRUCache_set key v now c) =
      map' c @ [(key, \<lparr>value' = v, expiry = now + ttlMillis c\<rparr>)]"
    using absent by (simp add: LRUCache_set_eq ev Map_delete_absent)
  have "evicted_keys key v now c = []"
    by (simp add: evicted_keys_def m Map_has_def Map_keys_def)
  with False m show ?thesis by simp
next
  case True
  with pos obtain kv m where c: "map' c = kv # m"
    by (cases "map' c") (auto simp: Map_size_def)
  from nonempty c have ne: "fst kv \<noteq> []" by (simp add: Map_first_key_def)
  from dist c have notin: "fst kv \<notin> fst ` set m"
    by (auto simp: Map_keys_def)
  have del: "Map_delete (map' c) (fst kv) = m"
  proof -
    have "\<forall>x\<in>set m. fst x \<noteq> fst kv" using notin by (metis image_eqI)
    then show ?thesis by (simp add: c Map_delete_def filter_id_conv)
  qed
  have ev: "evict c = m"
    using True ne del by (simp add: evict_def c Map_first_key_def truthy_def)
  have absm: "\<not> Map_has m key" and kne: "key \<noteq> fst kv"
    using absent by (auto simp: c Map_has_def Map_keys_def)
  have m': "map' (LRUCache_set key v now c) =
      tl (map' c) @ [(key, \<lparr>value' = v, expiry = now + ttlMillis c\<rparr>)]"
    using absm by (simp add: LRUCache_set_eq ev Map_delete_absent c)
  have "evicted_keys key v now c = [fst kv]"
    using notin kne
    by (auto simp: evicted_keys_def m' c Map_has_def Map_keys_def filter_empty_conv)
  with True m' c show ?thesis by (simp add: Map_first_key_def)
qed

text \<open>
  The amended C2 on \<open>cache_ab\<close> at time 5500: the four hypotheses hold, two entries
  are stored, and \<^verbatim>\<open>set('c', 3)\<close> evicts the expired first key \<^verbatim>\<open>'a'\<close>.
\<close>

theorem set_evicts_iff_stored_count_reached_witness:
  "\<not> Map_has (map' cache_ab) ''c'' \<and> distinct (Map_keys (map' cache_ab))
   \<and> Map_first_key (map' cache_ab) \<noteq> Some [] \<and> 0 < maxEntries cache_ab
   \<and> maxEntries cache_ab \<le> int (Map_size (map' cache_ab))
   \<and> evicted_keys ''c'' 3 5500 cache_ab = [''a'']
   \<and> Map_keys (map' (LRUCache_set ''c'' 3 5500 cache_ab)) = [''b'', ''c'']"
proof -
  have h1: "\<not> Map_has (map' cache_ab) ''c''" by (simp add: cache_ab_eq Map_has_def Map_keys_def)
  have h2: "distinct (Map_keys (map' cache_ab))" by (simp add: cache_ab_eq Map_keys_def)
  have h3: "Map_first_key (map' cache_ab) \<noteq> Some []" by (simp add: cache_ab_eq Map_first_key_def)
  have h4: "0 < maxEntries cache_ab" by (simp add: cache_ab_eq)
  have h5: "maxEntries cache_ab \<le> int (Map_size (map' cache_ab))"
    by (simp add: cache_ab_eq Map_size_def)
  have k: "Map_first_key (map' cache_ab) = Some ''a''" by (simp add: cache_ab_eq Map_first_key_def)
  have t: "tl (map' cache_ab) = [(''b'', \<lparr>value' = 2, expiry = 6000\<rparr>)]" by (simp add: cache_ab_eq)
  show ?thesis
    using h1 h2 h3 h4 h5 k t
      set_evicts_iff_stored_count_reached [OF h1 h2 h3 h4, of 3 5500]
    by (auto simp: Map_keys_def)
qed

subsection \<open>C3: the capacity bound and the keys that survive\<close>

text \<open>
  C3 says that after a sequence of \<^verbatim>\<open>set\<close> calls with more distinct keys than the
  capacity, the stored keys are the capacity most recently touched distinct keys. With
  capacity 2, \<^verbatim>\<open>set('a', 1); set('b', 2); set('c', 3)\<close> leaves \<^verbatim>\<open>b, c\<close>; a further
  \<^verbatim>\<open>set('c', 4)\<close> runs the eviction step although \<^verbatim>\<open>c\<close> is stored, deletes \<^verbatim>\<open>b\<close>, and
  leaves \<^verbatim>\<open>c\<close> alone, where the two most recently touched distinct keys are \<^verbatim>\<open>b\<close> and
  \<^verbatim>\<open>c\<close>.
\<close>

theorem repeated_set_drops_recent_key:
  "Map_keys (map' (snd (run [(Set ''a'' (1::int), 0), (Set ''b'' 2, 1), (Set ''c'' 3, 2)]
       (constructor (Some 2) (Some 600))))) = [''b'', ''c'']
   \<and> Map_keys (map' (snd (run
       [(Set ''a'' (1::int), 0), (Set ''b'' 2, 1), (Set ''c'' 3, 2), (Set ''c'' 4, 3)]
       (constructor (Some 2) (Some 600))))) = [''c'']"
  by (simp add: eval_defs)

subsection \<open>C4: expiry by age\<close>


text \<open>
  Eviction takes a key away before its TTL has elapsed: with capacity 1, after
  \<^verbatim>\<open>set('k', 7)\<close> at time 0 and \<^verbatim>\<open>set('j', 8)\<close> at time 1, \<^verbatim>\<open>get('k')\<close> at time 2
  returns absent.
\<close>

lemma get_before_ttl_after_eviction:
  "fst (LRUCache_get ''k'' 2 (LRUCache_set ''j'' 8 1
      (LRUCache_set ''k'' (7::int) 0 (constructor (Some 1) (Some 600))))) = None"
  by (simp add: eval_defs)



subsection \<open>C5: the recency order\<close>

text \<open>
  C5: a \<^verbatim>\<open>get(k)\<close> on a stored, unexpired key returns the stored value and moves \<open>k\<close> to
  the most recently used end; after a \<^verbatim>\<open>get\<close> hit or a \<^verbatim>\<open>set\<close> on \<open>k\<close> the key \<open>k\<close> is the
  last key of the recency order; and nothing else changes the recency order: \<^verbatim>\<open>get(k)\<close>
  leaves the order of the other keys as it was, the other keys that \<^verbatim>\<open>set(k, v)\<close> keeps
  are in the order they had, and \<^verbatim>\<open>stats()\<close> leaves the cache as it was.
\<close>

theorem recency_order:
  "(Map_get (map' c) k = Some e \<and> \<not> isExpired now e \<longrightarrow>
      fst (LRUCache_get k now c) = Some (value' e)
      \<and> Map_keys (map' (snd (LRUCache_get k now c))) =
          filter (\<lambda>x. x \<noteq> k) (Map_keys (map' c)) @ [k])
   \<and> last (Map_keys (map' (LRUCache_set k v now c))) = k
   \<and> filter (\<lambda>x. x \<noteq> k) (Map_keys (map' (snd (LRUCache_get k now c)))) =
       filter (\<lambda>x. x \<noteq> k) (Map_keys (map' c))
   \<and> subseq (filter (\<lambda>x. x \<noteq> k) (Map_keys (map' (LRUCache_set k v now c))))
       (Map_keys (map' c))
   \<and> snd (LRUCache_stats c) = c"
proof -
  have hit: "Map_get (map' c) k = Some e \<and> \<not> isExpired now e \<longrightarrow>
      fst (LRUCache_get k now c) = Some (value' e)
      \<and> Map_keys (map' (snd (LRUCache_get k now c))) =
          filter (\<lambda>x. x \<noteq> k) (Map_keys (map' c)) @ [k]"
    by (simp add: LRUCache_get_eq Map_keys_delete Map_keys_append)
  have mru: "last (Map_keys (map' (LRUCache_set k v now c))) = k"
    by (simp add: keys_set)
  have others_get: "filter (\<lambda>x. x \<noteq> k) (Map_keys (map' (snd (LRUCache_get k now c)))) =
      filter (\<lambda>x. x \<noteq> k) (Map_keys (map' c))"
    by (simp add: keys_get)
  have "subseq (filter (\<lambda>x. x \<noteq> k) (Map_keys (evict c))) (Map_keys (map' c))"
    using subseq_evict [of c] subseq_filter_left subseq_order.order_trans by blast
  then have others_set:
    "subseq (filter (\<lambda>x. x \<noteq> k) (Map_keys (map' (LRUCache_set k v now c))))
       (Map_keys (map' c))"
    by (simp add: keys_set)
  have st: "snd (LRUCache_stats c) = c" by (simp add: LRUCache_stats_def)
  from hit mru others_get others_set st show ?thesis by blast
qed

text \<open>
  C5 on \<open>cache_ab\<close> at time 500: \<^verbatim>\<open>'a'\<close> is stored and unexpired, \<^verbatim>\<open>get('a')\<close> returns 1
  and the keys \<^verbatim>\<open>a, b\<close> become \<^verbatim>\<open>b, a\<close>.
\<close>

theorem recency_order_witness:
  "Map_get (map' cache_ab) ''a'' = Some \<lparr>value' = 1, expiry = 1000\<rparr>
   \<and> \<not> isExpired 500 \<lparr>value' = 1::int, expiry = 1000\<rparr>
   \<and> fst (LRUCache_get ''a'' 500 cache_ab) = Some 1
   \<and> Map_keys (map' (snd (LRUCache_get ''a'' 500 cache_ab))) = [''b'', ''a'']"
proof -
  have h1: "Map_get (map' cache_ab) ''a'' = Some \<lparr>value' = 1, expiry = 1000\<rparr>"
    by (simp add: cache_ab_eq Map_get_def)
  have h2: "\<not> isExpired 500 \<lparr>value' = 1::int, expiry = 1000\<rparr>"
    by (simp add: isExpired_def)
  have k: "Map_keys (map' cache_ab) = [''a'', ''b'']" by (simp add: cache_ab_eq Map_keys_def)
  show ?thesis
    using h1 h2 k
      recency_order [of cache_ab "''a''" "\<lparr>value' = 1, expiry = 1000\<rparr>" 500 0]
    by simp
qed

subsection \<open>C6: the eviction scenario\<close>

text \<open>
  C6: on a fresh cache of capacity 2, \<^verbatim>\<open>set(a, 1); set(b, 2); get(a); set(c, 3)\<close>, with
  \<^verbatim>\<open>a\<close> unexpired at the \<^verbatim>\<open>get\<close>, leaves exactly the keys \<^verbatim>\<open>a\<close> and \<^verbatim>\<open>c\<close>: the \<^verbatim>\<open>get\<close>
  returns the value of \<^verbatim>\<open>a\<close> and moves it behind \<^verbatim>\<open>b\<close>, so \<^verbatim>\<open>b\<close> is the first key when
  \<^verbatim>\<open>c\<close> is inserted.
\<close>

theorem lru_scenario:
  "tg \<le> ta + ttl * 1000 \<Longrightarrow>
   run [(Set ''a'' va, ta), (Set ''b'' vb, tb), (Get ''a'', tg), (Set ''c'' vc, tc)]
       (constructor (Some 2) (Some ttl)) =
     ([Done, Done, Value (Some va), Done],
      \<lparr>maxEntries = 2, ttlMillis = ttl * 1000,
       map' = [(''a'', \<lparr>value' = va, expiry = ta + ttl * 1000\<rparr>),
               (''c'', \<lparr>value' = vc, expiry = tc + ttl * 1000\<rparr>)]\<rparr>)"
  by (simp add: eval_defs)

text \<open>C6 with the values 1, 2, 3, the times 0, 1, 2, 3 and a TTL of 600 seconds.\<close>

theorem lru_scenario_witness:
  "(2::int) \<le> 0 + 600 * 1000
   \<and> Map_keys (map' (snd (run
        [(Set ''a'' (1::int), 0), (Set ''b'' 2, 1), (Get ''a'', 2), (Set ''c'' 3, 3)]
        (constructor (Some 2) (Some 600))))) = [''a'', ''c'']"
proof -
  have h: "(2::int) \<le> 0 + 600 * 1000" by simp
  have r: "run [(Set ''a'' (1::int), 0), (Set ''b'' 2, 1), (Get ''a'', 2), (Set ''c'' 3, 3)]
       (constructor (Some 2) (Some 600)) =
     ([Done, Done, Value (Some 1), Done],
      \<lparr>maxEntries = 2, ttlMillis = 600 * 1000,
       map' = [(''a'', \<lparr>value' = 1, expiry = 0 + 600 * 1000\<rparr>),
               (''c'', \<lparr>value' = 3, expiry = 3 + 600 * 1000\<rparr>)]\<rparr>)"
    by (rule lru_scenario [OF h])
  show ?thesis unfolding r using h by (simp add: Map_keys_def)
qed

subsection \<open>C7: stats\<close>

text \<open>
  C7: \<^verbatim>\<open>stats()\<close> returns the number of stored entries (all of them, so at least the
  number of unexpired ones, and more than that on \<open>cache_ab\<close> at time 5500), the
  capacity and the TTL, and leaves the cache as it was;
  any number of \<^verbatim>\<open>stats()\<close> calls, at any times, return that same snapshot, and the
  calls that follow them return what they return without them and leave the same
  cache.
\<close>

theorem stats_read_only:
  "LRUCache_stats c =
     (\<lparr>entries = Map_size (map' c), stats_maxEntries = maxEntries c,
       stats_ttlMillis = ttlMillis c\<rparr>, c)
   \<and> live_count now c \<le> entries (fst (LRUCache_stats c))
   \<and> live_count 5500 cache_ab < entries (fst (LRUCache_stats cache_ab))
   \<and> run (map (\<lambda>t. (Stats, t)) ts) c =
       (replicate (length ts) (Snapshot (fst (LRUCache_stats c))), c)
   \<and> run (map (\<lambda>t. (Stats, t)) ts @ (call, t') # rest) c =
       (replicate (length ts) (Snapshot (fst (LRUCache_stats c)))
          @ fst (run ((call, t') # rest) c),
        snd (run ((call, t') # rest) c))"
proof -
  have b': "live_count 5500 cache_ab < entries (fst (LRUCache_stats cache_ab))"
    by (simp add: cache_ab_eq LRUCache_stats_def live_count_def Map_size_def isExpired_def)
  have a: "LRUCache_stats c =
     (\<lparr>entries = Map_size (map' c), stats_maxEntries = maxEntries c,
       stats_ttlMillis = ttlMillis c\<rparr>, c)"
    by (simp add: LRUCache_stats_def)
  have b: "live_count now c \<le> entries (fst (LRUCache_stats c))"
    by (simp add: LRUCache_stats_def live_count_def Map_size_def)
  have d: "run (map (\<lambda>t. (Stats, t)) ts @ (call, t') # rest) c =
       (replicate (length ts) (Snapshot (fst (LRUCache_stats c)))
          @ fst (run ((call, t') # rest) c),
        snd (run ((call, t') # rest) c))"
    by (simp only: run_append run_Stats Let_def split_beta fst_conv snd_conv)
  from a b b' run_Stats [of ts c] d show ?thesis by blast
qed

subsection \<open>C8: construction\<close>

text \<open>
  C8 as stated: constructing a cache with a capacity that is not positive fails with a
  \<open>ConfigurationError\<close>. The constructor has no check: with capacity 0 it returns a
  cache.
\<close>

theorem constructor_zero_capacity_counterexample:
  "new_LRUCache (Some 0) (Some 600) \<noteq> (Inl ConfigurationError :: error + int LRUCache)"
  by (simp add: new_LRUCache_def)

text \<open>
  C8 as amended: construction never fails; for every capacity, positive or not, and
  every TTL in seconds it returns an empty cache with that capacity and the TTL in
  milliseconds, and no sequence of \<^verbatim>\<open>get\<close>, \<^verbatim>\<open>set\<close> and \<^verbatim>\<open>stats\<close> calls changes either
  value.
\<close>

theorem constructor_never_fails:
  "new_LRUCache (Some cap) (Some ttl) =
     (Inr \<lparr>maxEntries = cap, ttlMillis = ttl * 1000, map' = []\<rparr> :: error + 'v LRUCache)
   \<and> maxEntries (snd (run calls c)) = maxEntries c
   \<and> ttlMillis (snd (run calls c)) = ttlMillis c"
  using run_config [of calls c] by (simp add: new_LRUCache_def constructor_def)

subsection \<open>C9: absent on a miss\<close>

text \<open>
  C9: \<^verbatim>\<open>get(k)\<close> returns absent, and leaves the cache as it was, for every key that is
  not stored: a key that no call has set since the construction, a key that a \<^verbatim>\<open>set\<close>
  has evicted, and a key for which an earlier \<^verbatim>\<open>get\<close> returned absent (it was not
  stored, or it was expired and that \<^verbatim>\<open>get\<close> removed it). The embedding of \<^verbatim>\<open>get\<close> and
  \<^verbatim>\<open>set\<close> has no error value, as their bodies have no \<^verbatim>\<open>throw\<close> and read the fields of
  an entry only behind the test \<^verbatim>\<open>if (!entry) return null\<close>: each call returns.
\<close>

theorem get_absent_on_miss:
  fixes c :: "'v LRUCache" and calls :: "('v call \<times> int) list"
  shows
  "(\<not> Map_has (map' c) k \<longrightarrow> LRUCache_get k now c = (None, c))
   \<and> ((\<forall>x\<in>set calls. \<not> sets_key k (fst x)) \<longrightarrow>
        LRUCache_get k now (snd (run calls (constructor cap ttl))) =
          (None, snd (run calls (constructor cap ttl))))
   \<and> (k \<in> set (evicted_keys k' v t c) \<longrightarrow>
        LRUCache_get k now (LRUCache_set k' v t c) = (None, LRUCache_set k' v t c))
   \<and> (fst (LRUCache_get k t c) = None \<longrightarrow>
        LRUCache_get k now (snd (LRUCache_get k t c)) = (None, snd (LRUCache_get k t c)))"
proof -
  have never_set: "(\<forall>x\<in>set calls. \<not> sets_key k (fst x)) \<longrightarrow>
        LRUCache_get k now (snd (run calls (constructor cap ttl))) =
          (None, snd (run calls (constructor cap ttl)))"
  proof
    assume ns: "\<forall>x\<in>set calls. \<not> sets_key k (fst x)"
    have "\<not> Map_has (map' (constructor cap ttl :: 'v LRUCache)) k"
      by (simp add: constructor_def Map_has_def Map_keys_def Let_def)
    with ns have "\<not> Map_has (map' (snd (run calls (constructor cap ttl :: 'v LRUCache)))) k"
      using has_after_run by blast
    then show "LRUCache_get k now (snd (run calls (constructor cap ttl))) =
          (None, snd (run calls (constructor cap ttl)))"
      by (rule get_absent)
  qed
  have evicted: "k \<in> set (evicted_keys k' v t c) \<longrightarrow>
        LRUCache_get k now (LRUCache_set k' v t c) = (None, LRUCache_set k' v t c)"
    by (simp add: evicted_keys_def get_absent)
  have "fst (LRUCache_get k t c) = None \<longrightarrow> \<not> Map_has (map' (snd (LRUCache_get k t c))) k"
    unfolding Map_has_def keys_get by simp
  then have expired: "fst (LRUCache_get k t c) = None \<longrightarrow>
        LRUCache_get k now (snd (LRUCache_get k t c)) = (None, snd (LRUCache_get k t c))"
    by (simp add: get_absent)
  from get_absent [of c k now] never_set evicted expired show ?thesis by blast
qed

text \<open>
  C9 on \<open>cache_ab\<close>: the key \<^verbatim>\<open>'x'\<close> is not stored, and a \<^verbatim>\<open>get('x')\<close> returns absent;
  after \<^verbatim>\<open>set('a', 1)\<close> on a fresh cache, which does not set \<^verbatim>\<open>'x'\<close>, it returns absent;
  \<^verbatim>\<open>set('c', 3)\<close> evicts \<^verbatim>\<open>'a'\<close>, and a \<^verbatim>\<open>get('a')\<close> then returns absent; and the
  \<^verbatim>\<open>get('a')\<close> at time 5500 finds \<^verbatim>\<open>'a'\<close> expired, after which \<^verbatim>\<open>get('a')\<close> at the earlier
  clock value 500 returns absent too.
\<close>

theorem get_absent_on_miss_witness:
  "\<not> Map_has (map' cache_ab) ''x''
   \<and> LRUCache_get ''x'' 5500 cache_ab = (None, cache_ab)
   \<and> \<not> sets_key ''x'' (Set ''a'' (1::int))
   \<and> fst (LRUCache_get ''x'' 5500
        (snd (run [(Set ''a'' (1::int), 0)] (constructor (Some 2) (Some 1))))) = None
   \<and> ''a'' \<in> set (evicted_keys ''c'' 3 5500 cache_ab)
   \<and> fst (LRUCache_get ''a'' 500 (LRUCache_set ''c'' 3 5500 cache_ab)) = None
   \<and> fst (LRUCache_get ''a'' 5500 cache_ab) = None
   \<and> fst (LRUCache_get ''a'' 500 (snd (LRUCache_get ''a'' 5500 cache_ab))) = None"
proof -
  have h1: "\<not> Map_has (map' cache_ab) ''x''"
    by (simp add: cache_ab_eq Map_has_def Map_keys_def)
  have h2: "\<forall>x\<in>set [(Set ''a'' (1::int), 0::int)]. \<not> sets_key ''x'' (fst x)"
    by simp
  have h3: "''a'' \<in> set (evicted_keys ''c'' 3 5500 cache_ab)"
    by (simp add: cache_ab_eq evicted_keys_def eval_defs)
  have h4: "fst (LRUCache_get ''a'' 5500 cache_ab) = None"
    by (simp add: cache_ab_eq eval_defs)
  show ?thesis
    using h1 h2 h3 h4
      get_absent_on_miss [of cache_ab "''x''" 5500 "[(Set ''a'' (1::int), 0::int)]"
        "Some 2" "Some 1" "''c''" 3 5500]
      get_absent_on_miss [of cache_ab "''a''" 500 "[]" "Some 2" "Some 1" "''c''" 3 5500]
    by simp
qed

subsection \<open>C10: capacity 0\<close>

text \<open>
  C10: the construction accepts the capacity 0; on the empty cache there is no first
  key, so the eviction step of \<^verbatim>\<open>set(k, v)\<close> deletes nothing and the entry is inserted:
  \<^verbatim>\<open>stats()\<close> then reports one entry with a maximum of 0.
\<close>

theorem zero_capacity_set_inserts:
  "new_LRUCache (Some 0) ttl = Inr (constructor (Some 0) ttl)
   \<and> Map_first_key (map' (constructor (Some 0) ttl :: 'v LRUCache)) = None
   \<and> map' (LRUCache_set k v now (constructor (Some 0) ttl)) =
       [(k, \<lparr>value' = v, expiry = now + ttlMillis (constructor (Some 0) ttl :: 'v LRUCache)\<rparr>)]
   \<and> entries (fst (LRUCache_stats (LRUCache_set k v now (constructor (Some 0) ttl)))) = 1
   \<and> stats_maxEntries (fst (LRUCache_stats (LRUCache_set k v now (constructor (Some 0) ttl))))
       = 0"
  by (simp add: eval_defs split: option.splits)

end
